theory Spec2Isabelle
  imports Complex_Main
begin

section \<open>Video progress tracker: intervals, segment recording, persistence\<close>

text \<open>
  A shallow embedding of \<^verbatim>\<open>src/App.jsx\<close> (the component \<^verbatim>\<open>VideoProgressTracker\<close>).

  JavaScript numbers are modelled as rationals: every position, duration and interval
  bound is a finite number and arithmetic is exact, so rounding of IEEE doubles, \<^verbatim>\<open>NaN\<close>
  and the infinities are outside the model. Interval objects are modelled by value; the
  source mutates \<^verbatim>\<open>lastMerged.end\<close> in place, which changes nothing in the array that
  \<^verbatim>\<open>mergeIntervals\<close> returns as long as no object occurs twice in its argument (the
  program builds every interval as a fresh object, or gets it from \<^verbatim>\<open>JSON.parse\<close>).
\<close>

subsection \<open>Intervals and the merge\<close>

record interval =
  iv_start :: rat
  iv_end :: rat

text \<open>
  One round of the loop in \<^verbatim>\<open>mergeIntervals\<close>: \<^verbatim>\<open>merged\<close> is never empty there, its
  last element is \<^verbatim>\<open>lastMerged\<close>, which is either widened or followed by \<^verbatim>\<open>current\<close>.
\<close>

definition merge_step :: "interval list \<Rightarrow> interval \<Rightarrow> interval list" where
  "merge_step merged current =
     (let lastMerged = last merged in
      if iv_start current \<le> iv_end lastMerged + 1
      then butlast merged @ [lastMerged\<lparr>iv_end := max (iv_end lastMerged) (iv_end current)\<rparr>]
      else merged @ [current])"

text \<open>
  \<^verbatim>\<open>[...intervals].sort((a, b) => a.start - b.start)\<close> sorts a copy by start and keeps
  the order of intervals with equal starts (\<^verbatim>\<open>Array.prototype.sort\<close> is stable), as
  \<^const>\<open>sort_key\<close> does. The sorted array has at least two elements where it is used,
  so the empty case of the \<^verbatim>\<open>case\<close> is never taken.
\<close>

definition mergeIntervals :: "interval list \<Rightarrow> interval list" where
  "mergeIntervals intervals =
     (if length intervals \<le> 1 then intervals
      else (case sort_key iv_start intervals of
              [] \<Rightarrow> []
            | first # rest \<Rightarrow> foldl merge_step [first] rest))"

definition calculateUniqueTime :: "interval list \<Rightarrow> rat" where
  "calculateUniqueTime intervals =
     foldl (\<lambda>total interval. total + (iv_end interval - iv_start interval)) 0 intervals"

text \<open>
  The state updater inside \<^verbatim>\<open>recordWatchedSegment\<close>:
  \<^verbatim>\<open>updated = [...prev, newInterval]; merged = mergeIntervals(updated)\<close>.
\<close>

definition merge_updated :: "interval list \<Rightarrow> interval \<Rightarrow> interval list" where
  "merge_updated prev newInterval = mergeIntervals (prev @ [newInterval])"

subsection \<open>Properties of interval lists\<close>

text \<open>
  The coverage-set invariant on adjacent pairs: starts ascending, and each interval ends
  more than the tolerance 1 before the next one starts.
\<close>

fun coverage_inv :: "interval list \<Rightarrow> bool" where
  "coverage_inv [] = True"
| "coverage_inv [x] = True"
| "coverage_inv (x # y # zs) =
     (iv_start x \<le> iv_start y \<and> iv_end x + 1 < iv_start y \<and> coverage_inv (y # zs))"

definition well_formed :: "interval \<Rightarrow> bool" where
  "well_formed i = (iv_start i \<le> iv_end i)"

definition iv_length :: "interval \<Rightarrow> rat" where
  "iv_length i = iv_end i - iv_start i"

definition covers :: "interval \<Rightarrow> interval \<Rightarrow> bool" where
  "covers j i = (iv_start j \<le> iv_start i \<and> iv_end i \<le> iv_end j)"

definition apart :: "interval \<Rightarrow> interval \<Rightarrow> bool" where
  "apart i j = (iv_end j + 1 < iv_start i \<or> iv_end i + 1 < iv_start j)"

text \<open>
  An interval as the store admits it ends after it starts; the coverage set of the data
  model is a list of such intervals with the invariant on adjacent pairs.
\<close>

definition proper :: "interval \<Rightarrow> bool" where
  "proper i = (iv_start i < iv_end i)"

definition coverage_set :: "interval list \<Rightarrow> bool" where
  "coverage_set xs = (list_all proper xs \<and> coverage_inv xs)"

text \<open>Intervals that lie on the timeline of a medium of duration \<open>D\<close>.\<close>

definition on_timeline :: "rat \<Rightarrow> interval \<Rightarrow> bool" where
  "on_timeline D i = (0 \<le> iv_start i \<and> iv_start i \<le> iv_end i \<and> iv_end i \<le> D)"

definition in_range :: "rat \<Rightarrow> interval list \<Rightarrow> bool" where
  "in_range D xs = (coverage_inv xs \<and> list_all (on_timeline D) xs)"

subsection \<open>The sweep as a recursion\<close>

text \<open>
  The loop of \<^verbatim>\<open>mergeIntervals\<close> with the last merged interval held apart from the
  intervals already closed; \<open>foldl_merge_step\<close> below shows it is the same computation.
\<close>

fun sweep :: "interval \<Rightarrow> interval list \<Rightarrow> interval list" where
  "sweep cur [] = [cur]"
| "sweep cur (x # xs) =
     (if iv_start x \<le> iv_end cur + 1
      then sweep (cur\<lparr>iv_end := max (iv_end cur) (iv_end x)\<rparr>) xs
      else cur # sweep x xs)"

text \<open>Where the stable sort puts a new interval in a list that is sorted already.\<close>

fun ins :: "interval \<Rightarrow> interval list \<Rightarrow> interval list" where
  "ins i [] = [i]"
| "ins i (x # xs) = (if iv_start x \<le> iv_start i then x # ins i xs else i # x # xs)"

subsection \<open>The player, the stored record and the component state\<close>

text \<open>
  What the component reads of the media element behind \<^verbatim>\<open>videoRef.current\<close>. An
  assignment to \<^verbatim>\<open>currentTime\<close> is modelled as storing the value; the clamping a browser
  applies to it is not part of the source.
\<close>

record video =
  currentTime :: rat
  paused :: bool
  duration :: rat

text \<open>
  The value that \<^verbatim>\<open>JSON.parse\<close> makes of the stored string. A field is \<open>None\<close> when
  the value does not have it (JavaScript \<^verbatim>\<open>undefined\<close>, also for every field of a number,
  a string or an array) or holds \<^verbatim>\<open>null\<close>; a field that is present has the type that
  \<^verbatim>\<open>saveProgressToStorage\<close> writes. \<^verbatim>\<open>JSON.stringify\<close> followed by \<^verbatim>\<open>JSON.parse\<close> gives
  back a record of finite numbers as it was, so the stored string is modelled by the
  record itself.
\<close>

record progressData =
  pd_intervals :: "interval list option"
  pd_lastPosition :: "rat option"
  pd_totalDuration :: "rat option"
  pd_sessionTime :: "rat option"
  pd_timestamp :: "int option"
  pd_progressPercentage :: "rat option"

text \<open>
  The item under the key \<^verbatim>\<open>videoProgress\<close>: \<open>Malformed\<close> is a string on which the
  \<^verbatim>\<open>try\<close> block of \<^verbatim>\<open>loadProgress\<close> throws (\<^verbatim>\<open>JSON.parse\<close> fails, or yields
  \<^verbatim>\<open>null\<close>, whose property access throws).
\<close>

datatype stored = Malformed | Parsed progressData

text \<open>
  The \<^verbatim>\<open>useState\<close> values, the \<^verbatim>\<open>useRef\<close> cells and the session storage of the
  component. \<open>quotaExceeded\<close> says that \<^verbatim>\<open>sessionStorage.setItem\<close> throws. The status
  banner (\<^verbatim>\<open>statusMessage\<close>, \<^verbatim>\<open>showStatus\<close>) and the timer handle are presentation
  and are left out.
\<close>

record tracker =
  videoRef :: "video option"
  watchedIntervals :: "interval list"
  currentProgress :: rat
  uniqueWatchedTime :: rat
  totalDuration :: rat
  sessionWatchedTime :: rat
  isPlaying :: bool
  currentWatchStart :: "rat option"
  lastPosition :: rat
  hasResumed :: bool
  sessionStorage :: "stored option"
  quotaExceeded :: bool

text \<open>The state of a freshly mounted component, given the player and the storage.\<close>

definition initial_tracker :: "video option \<Rightarrow> stored option \<Rightarrow> bool \<Rightarrow> tracker" where
  "initial_tracker v item full =
     \<lparr>videoRef = v, watchedIntervals = [], currentProgress = 0, uniqueWatchedTime = 0,
      totalDuration = 0, sessionWatchedTime = 0, isPlaying = False, currentWatchStart = None,
      lastPosition = 0, hasResumed = False, sessionStorage = item, quotaExceeded = full\<rparr>"

subsection \<open>Event handlers\<close>

text \<open>
  \<^verbatim>\<open>recordWatchedSegment\<close>: the open segment runs from \<^verbatim>\<open>currentWatchStart.current\<close>
  to the player's current time, whatever the caller; the cell is cleared in every case.
\<close>

definition recordWatchedSegment :: "tracker \<Rightarrow> tracker" where
  "recordWatchedSegment st =
     (let st' =
        (case (currentWatchStart st, videoRef st) of
           (Some start, Some v) \<Rightarrow>
             (let fin = currentTime v in
              if fin > start \<and> fin - start \<ge> 1 / 2
              then st\<lparr>watchedIntervals :=
                        merge_updated (watchedIntervals st) \<lparr>iv_start = start, iv_end = fin\<rparr>,
                      sessionWatchedTime := sessionWatchedTime st + (fin - start)\<rparr>
              else st)
         | _ \<Rightarrow> st)
      in st'\<lparr>currentWatchStart := None\<rparr>)"

definition handlePlay :: "tracker \<Rightarrow> tracker" where
  "handlePlay st =
     (let st' = st\<lparr>isPlaying := True\<rparr> in
      case videoRef st of
        Some v \<Rightarrow> st'\<lparr>currentWatchStart := Some (currentTime v)\<rparr>
      | None \<Rightarrow> st')"

definition handlePause :: "tracker \<Rightarrow> tracker" where
  "handlePause st = recordWatchedSegment (st\<lparr>isPlaying := False\<rparr>)"

definition handleSeeked :: "tracker \<Rightarrow> tracker" where
  "handleSeeked st =
     (let st' = recordWatchedSegment st in
      case videoRef st of
        Some v \<Rightarrow> if \<not> paused v then st'\<lparr>currentWatchStart := Some (currentTime v)\<rparr> else st'
      | None \<Rightarrow> st')"

definition handleTimeUpdate :: "tracker \<Rightarrow> tracker" where
  "handleTimeUpdate st =
     (case videoRef st of
        None \<Rightarrow> st
      | Some v \<Rightarrow>
          (let now = currentTime v;
               timeDiff = \<bar>now - lastPosition st\<bar>;
               st' = (if timeDiff > 2
                      then (let st1 = recordWatchedSegment st in
                            if \<not> paused v then st1\<lparr>currentWatchStart := Some now\<rparr> else st1)
                      else st)
           in st'\<lparr>lastPosition := now\<rparr>))"

definition handleEnded :: "tracker \<Rightarrow> tracker" where
  "handleEnded st = recordWatchedSegment (st\<lparr>isPlaying := False\<rparr>)"

subsection \<open>Persistence\<close>

text \<open>
  \<^verbatim>\<open>loadProgress\<close>. \<^verbatim>\<open>data.intervals || []\<close> and \<^verbatim>\<open>data.sessionTime || 0\<close> give the
  default for an absent field (and for a zero session time, which is 0 either way). The
  guard \<^verbatim>\<open>data.lastPosition\<close> is JavaScript truthiness: an absent field and the number 0
  fail it, every other number passes.
\<close>

definition loadProgress :: "tracker \<Rightarrow> tracker" where
  "loadProgress st =
     (case sessionStorage st of
        None \<Rightarrow> st
      | Some Malformed \<Rightarrow> st
      | Some (Parsed data) \<Rightarrow>
          (let st1 = st\<lparr>watchedIntervals := (case pd_intervals data of Some xs \<Rightarrow> xs | None \<Rightarrow> []),
                        sessionWatchedTime :=
                          (case pd_sessionTime data of Some t \<Rightarrow> (if t \<noteq> 0 then t else 0) | None \<Rightarrow> 0)\<rparr>
           in case (videoRef st, pd_lastPosition data) of
                (Some v, Some p) \<Rightarrow>
                  if p \<noteq> 0 \<and> \<not> hasResumed st
                  then st1\<lparr>videoRef := Some (v\<lparr>currentTime := p\<rparr>),
                           lastPosition := p,
                           hasResumed := True\<rparr>
                  else st1
              | _ \<Rightarrow> st1))"

text \<open>
  \<^verbatim>\<open>saveProgressToStorage\<close>; \<open>stamp\<close> is the value of \<^verbatim>\<open>Date.now()\<close>. When
  \<^verbatim>\<open>setItem\<close> throws, the error is logged and the stored item stays as it was.
\<close>

definition saveProgressToStorage :: "int \<Rightarrow> tracker \<Rightarrow> tracker" where
  "saveProgressToStorage stamp st =
     (let progressData =
        \<lparr>pd_intervals = Some (watchedIntervals st),
         pd_lastPosition =
           Some (case videoRef st of
                   Some v \<Rightarrow> (if currentTime v \<noteq> 0 then currentTime v else 0)
                 | None \<Rightarrow> 0),
         pd_totalDuration = Some (totalDuration st),
         pd_sessionTime = Some (sessionWatchedTime st),
         pd_timestamp = Some stamp,
         pd_progressPercentage = Some (currentProgress st)\<rparr>
      in if quotaExceeded st then st else st\<lparr>sessionStorage := Some (Parsed progressData)\<rparr>)"

subsection \<open>Derived values and metadata\<close>

text \<open>
  The effect that runs when \<^verbatim>\<open>watchedIntervals\<close> or \<^verbatim>\<open>totalDuration\<close> changed
  (\<^verbatim>\<open>// Update display values\<close>). It has no \<^verbatim>\<open>else\<close> branch: without a positive
  total duration the progress keeps its value.
\<close>

definition updateDisplay :: "tracker \<Rightarrow> tracker" where
  "updateDisplay st =
     (let uniqueTime = calculateUniqueTime (watchedIntervals st);
          st' = st\<lparr>uniqueWatchedTime := uniqueTime\<rparr>
      in if totalDuration st > 0
         then st'\<lparr>currentProgress := (uniqueTime / totalDuration st) * 100\<rparr>
         else st')"

text \<open>
  \<^verbatim>\<open>handleLoadedMetadata\<close> stores the reported duration; the \<^verbatim>\<open>loadProgress\<close> it
  schedules 100 ms later is the separate step \<^const>\<open>loadProgress\<close>.
\<close>

definition handleLoadedMetadata :: "tracker \<Rightarrow> tracker" where
  "handleLoadedMetadata st =
     (case videoRef st of
        Some v \<Rightarrow> st\<lparr>totalDuration := duration v\<rparr>
      | None \<Rightarrow> st)"

text \<open>\<^verbatim>\<open>resetProgress\<close>, with the answer of the confirmation dialog as \<open>confirmed\<close>.\<close>

definition resetProgress :: "bool \<Rightarrow> tracker \<Rightarrow> tracker" where
  "resetProgress confirmed st =
     (if confirmed
      then st\<lparr>watchedIntervals := [], currentProgress := 0, uniqueWatchedTime := 0,
              sessionWatchedTime := 0, currentWatchStart := None, lastPosition := 0,
              hasResumed := False,
              videoRef := (case videoRef st of Some v \<Rightarrow> Some (v\<lparr>currentTime := 0\<rparr>) | None \<Rightarrow> None),
              sessionStorage := None\<rparr>
      else st)"

subsection \<open>Example states\<close>

text \<open>A stored record that holds an intervals array and nothing else.\<close>

definition intervals_only :: "interval list \<Rightarrow> stored" where
  "intervals_only xs =
     Parsed \<lparr>pd_intervals = Some xs, pd_lastPosition = None, pd_totalDuration = None,
             pd_sessionTime = None, pd_timestamp = None, pd_progressPercentage = None\<rparr>"

text \<open>A player at position \<open>t\<close> of a medium of duration \<open>d\<close>, playing.\<close>

definition playing_at :: "rat \<Rightarrow> rat \<Rightarrow> video" where
  "playing_at t d = \<lparr>currentTime = t, paused = False, duration = d\<rparr>"

subsection \<open>Runs of the component\<close>

text \<open>
  What happens to a mounted component, one event at a time. The medium has the duration
  \<open>D\<close>. The player moves (\<open>Moved\<close>: a new position and whether it is paused), the storage
  starts or stops refusing writes (\<open>Quota\<close>), the page is reloaded in the same tab
  (\<open>Reload\<close>: a fresh component and a fresh player, the session storage kept), and the
  handlers run. After a handler the effect \<^const>\<open>updateDisplay\<close> runs, as React runs it
  after the render whenever \<^verbatim>\<open>watchedIntervals\<close> or \<^verbatim>\<open>totalDuration\<close> changed. \<open>Load\<close> is
  \<^verbatim>\<open>loadProgress\<close>, which runs on mount and 100 ms after the metadata; \<open>Save\<close> carries the
  value of \<^verbatim>\<open>Date.now()\<close> and \<open>Reset\<close> the answer of the confirmation dialog.
\<close>

datatype event =
    Play | Pause | Seeked | TimeUpdate | Ended | LoadedMetadata | Load
  | Save int | Reset bool | Moved rat bool | Quota bool | Reload

definition fresh_player :: "rat \<Rightarrow> video" where
  "fresh_player D = \<lparr>currentTime = 0, paused = True, duration = D\<rparr>"

fun step :: "rat \<Rightarrow> event \<Rightarrow> tracker \<Rightarrow> tracker" where
  "step D Play st = updateDisplay (handlePlay st)"
| "step D Pause st = updateDisplay (handlePause st)"
| "step D Seeked st = updateDisplay (handleSeeked st)"
| "step D TimeUpdate st = updateDisplay (handleTimeUpdate st)"
| "step D Ended st = updateDisplay (handleEnded st)"
| "step D LoadedMetadata st = updateDisplay (handleLoadedMetadata st)"
| "step D Load st = updateDisplay (loadProgress st)"
| "step D (Save stamp) st = updateDisplay (saveProgressToStorage stamp st)"
| "step D (Reset confirmed) st = updateDisplay (resetProgress confirmed st)"
| "step D (Moved t p) st =
     st\<lparr>videoRef := map_option (\<lambda>v. v\<lparr>currentTime := t, paused := p\<rparr>) (videoRef st)\<rparr>"
| "step D (Quota q) st = st\<lparr>quotaExceeded := q\<rparr>"
| "step D Reload st =
     initial_tracker (Some (fresh_player D)) (sessionStorage st) (quotaExceeded st)"

text \<open>A position of the player lies on the timeline of the medium.\<close>

fun allowed :: "rat \<Rightarrow> event \<Rightarrow> bool" where
  "allowed D (Moved t p) = (0 \<le> t \<and> t \<le> D)"
| "allowed D e = True"

text \<open>
  The states the component reaches in a tab whose session storage is empty at first. The
  order of the events is not restricted, so every run of the real component is among
  these.
\<close>

inductive reach :: "rat \<Rightarrow> tracker \<Rightarrow> bool" for D :: rat where
  mounted: "0 \<le> D \<Longrightarrow> reach D (initial_tracker (Some (fresh_player D)) None full)"
| event: "reach D st \<Longrightarrow> allowed D e \<Longrightarrow> reach D (step D e st)"

fun run :: "rat \<Rightarrow> event list \<Rightarrow> tracker \<Rightarrow> tracker" where
  "run D [] st = st"
| "run D (e # es) st = run D es (step D e st)"

text \<open>What every reached state satisfies, apart from the value of the progress.\<close>

definition record_ok :: "rat \<Rightarrow> progressData \<Rightarrow> bool" where
  "record_ok D d =
     ((case pd_intervals d of None \<Rightarrow> True | Some xs \<Rightarrow> in_range D xs) \<and>
      (case pd_lastPosition d of None \<Rightarrow> True | Some p \<Rightarrow> 0 \<le> p \<and> p \<le> D))"

definition base :: "rat \<Rightarrow> tracker \<Rightarrow> bool" where
  "base D st =
     (0 \<le> D \<and>
      (case videoRef st of
         None \<Rightarrow> False
       | Some v \<Rightarrow> 0 \<le> currentTime v \<and> currentTime v \<le> D \<and> duration v = D) \<and>
      in_range D (watchedIntervals st) \<and>
      (totalDuration st = 0 \<or> totalDuration st = D) \<and>
      (case currentWatchStart st of None \<Rightarrow> True | Some s \<Rightarrow> 0 \<le> s \<and> s \<le> D) \<and>
      (case sessionStorage st of
         None \<Rightarrow> True
       | Some Malformed \<Rightarrow> False
       | Some (Parsed d) \<Rightarrow> record_ok D d))"

definition settled :: "rat \<Rightarrow> tracker \<Rightarrow> bool" where
  "settled D st =
     (base D st \<and>
      currentProgress st =
        (if 0 < totalDuration st
         then calculateUniqueTime (watchedIntervals st) / totalDuration st * 100
         else 0))"

text \<open>
  A medium of 100 seconds: metadata, play from 0, the player reaches 37, pause. And the
  same after a save and a reload of the page.
\<close>

definition watched_37 :: tracker where
  "watched_37 =
     run 100 [LoadedMetadata, Play, Moved 37 False, Pause]
       (initial_tracker (Some (fresh_player 100)) None False)"



section \<open>Lemmas on the merge\<close>

lemma foldl_merge_step: "foldl merge_step (acc @ [cur]) xs = acc @ sweep cur xs"
proof (induction xs arbitrary: acc cur)
  case Nil
  show ?case by simp
next
  case (Cons x xs)
  show ?case
  proof (cases "iv_start x \<le> iv_end cur + 1")
    case True
    then have "merge_step (acc @ [cur]) x = acc @ [cur\<lparr>iv_end := max (iv_end cur) (iv_end x)\<rparr>]"
      by (simp add: merge_step_def)
    with True Cons.IH show ?thesis by simp
  next
    case False
    then have "merge_step (acc @ [cur]) x = (acc @ [cur]) @ [x]"
      by (simp add: merge_step_def)
    with False Cons.IH [of "acc @ [cur]" x] show ?thesis by simp
  qed
qed

lemma mergeIntervals_sweep:
  "sort_key iv_start xs = y # ys \<Longrightarrow> length xs > 1 \<Longrightarrow> mergeIntervals xs = sweep y ys"
  using foldl_merge_step [of "[]" y ys] by (simp add: mergeIntervals_def)

lemma sweep_not_Nil: "sweep cur xs \<noteq> []"
  by (induction xs arbitrary: cur) auto

lemma hd_sweep: "iv_start (hd (sweep cur xs)) = iv_start cur"
  by (induction xs arbitrary: cur) auto

lemma coverage_inv_Cons:
  "coverage_inv (x # ys) =
     (ys = [] \<or> (iv_start x \<le> iv_start (hd ys) \<and> iv_end x + 1 < iv_start (hd ys) \<and> coverage_inv ys))"
  by (cases ys) auto

lemma coverage_inv_sweep:
  "sorted (map iv_start (cur # xs)) \<Longrightarrow> coverage_inv (sweep cur xs)"
proof (induction xs arbitrary: cur)
  case Nil
  show ?case by simp
next
  case (Cons x xs)
  show ?case
  proof (cases "iv_start x \<le> iv_end cur + 1")
    case True
    from Cons.prems have "sorted (map iv_start (cur\<lparr>iv_end := max (iv_end cur) (iv_end x)\<rparr> # xs))"
      by auto
    from Cons.IH [OF this] True show ?thesis by simp
  next
    case False
    from Cons.prems have s: "sorted (map iv_start (x # xs))" and le: "iv_start cur \<le> iv_start x"
      by auto
    from Cons.IH [OF s] False le show ?thesis
      by (simp add: coverage_inv_Cons [of cur] hd_sweep sweep_not_Nil)
  qed
qed

lemma coverage_inv_mergeIntervals:
  "length xs > 1 \<Longrightarrow> coverage_inv (mergeIntervals xs)"
proof -
  assume len: "length xs > 1"
  then have "sort_key iv_start xs \<noteq> []"
    by (metis length_sort list.size(3) not_less_zero)
  then obtain y ys where s: "sort_key iv_start xs = y # ys"
    by (cases "sort_key iv_start xs") auto
  have "sorted (map iv_start (y # ys))"
    using sorted_sort_key [of iv_start xs] s by simp
  then show ?thesis
    using mergeIntervals_sweep [OF s len] coverage_inv_sweep by simp
qed

lemma coverage_inv_short: "length xs \<le> 1 \<Longrightarrow> coverage_inv xs"
  by (cases xs rule: coverage_inv.cases) auto

lemma coverage_inv_nth:
  "coverage_inv xs \<Longrightarrow> Suc i < length xs \<Longrightarrow>
     iv_start (xs ! i) \<le> iv_start (xs ! Suc i) \<and> iv_end (xs ! i) + 1 < iv_start (xs ! Suc i)"
proof (induction xs arbitrary: i rule: coverage_inv.induct)
  case 1
  then show ?case by simp
next
  case (2 x)
  then show ?case by simp
next
  case (3 x y zs)
  then show ?case by (cases i) auto
qed

lemma coverage_inv_sorted: "coverage_inv xs \<Longrightarrow> sorted (map iv_start xs)"
proof (induction xs rule: coverage_inv.induct)
  case 1
  show ?case by simp
next
  case (2 x)
  show ?case by simp
next
  case (3 x y zs)
  then have "sorted (map iv_start (y # zs))" and "iv_start x \<le> iv_start y"
    by auto
  then show ?case by fastforce
qed

lemma ins_all_greater: "\<forall>x\<in>set xs. iv_start i < iv_start x \<Longrightarrow> ins i xs = i # xs"
  by (cases xs) auto

lemma set_ins: "set (ins i xs) = insert i (set xs)"
  by (induction xs) auto

lemma sort_key_snoc:
  "sorted (map iv_start S) \<Longrightarrow> sort_key iv_start (S @ [i]) = ins i S"
proof (induction S)
  case Nil
  show ?case by simp
next
  case (Cons s S)
  then have IH: "sort_key iv_start (S @ [i]) = ins i S"
    and le: "\<forall>x\<in>set S. iv_start s \<le> iv_start x"
    by auto
  have step: "sort_key iv_start ((s # S) @ [i]) = insort_key iv_start s (ins i S)"
    using IH by simp
  show ?case
  proof (cases "iv_start s \<le> iv_start i")
    case True
    with le have "\<forall>x\<in>set (ins i S). iv_start s \<le> iv_start x"
      by (simp add: set_ins)
    then have "insort_key iv_start s (ins i S) = s # ins i S"
      by (rule insort_is_Cons)
    with step True show ?thesis by simp
  next
    case False
    with le have "\<forall>x\<in>set S. iv_start i < iv_start x" by force
    then have "ins i S = i # S" by (rule ins_all_greater)
    moreover have "insort_key iv_start s S = s # S"
      using le by (simp add: insort_is_Cons)
    ultimately show ?thesis using step False by simp
  qed
qed

lemma sweep_separated: "coverage_inv (cur # xs) \<Longrightarrow> sweep cur xs = cur # xs"
  by (induction xs arbitrary: cur) auto

lemma covers_refl: "covers i i"
  by (simp add: covers_def)

lemma sweep_covers:
  "sorted (map iv_start (cur # rest)) \<Longrightarrow> covers cur x \<or> x \<in> set rest \<Longrightarrow>
     \<exists>j\<in>set (sweep cur rest). covers j x"
proof (induction rest arbitrary: cur)
  case Nil
  then show ?case by simp
next
  case (Cons r rest)
  show ?case
  proof (cases "iv_start r \<le> iv_end cur + 1")
    case True
    let ?cur = "cur\<lparr>iv_end := max (iv_end cur) (iv_end r)\<rparr>"
    from Cons.prems(1) have s: "sorted (map iv_start (?cur # rest))" by auto
    from Cons.prems have "covers ?cur x \<or> x \<in> set rest"
      by (auto simp: covers_def)
    from Cons.IH [OF s this] True show ?thesis by simp
  next
    case False
    from Cons.prems(1) have s: "sorted (map iv_start (r # rest))" by auto
    show ?thesis
    proof (cases "covers cur x")
      case True
      with False show ?thesis by auto
    next
      case nc: False
      with Cons.prems(2) have "covers r x \<or> x \<in> set rest"
        by (auto simp: covers_refl)
      from Cons.IH [OF s this] False show ?thesis by auto
    qed
  qed
qed

lemma coverage_inv_tail: "coverage_inv (x # xs) \<Longrightarrow> coverage_inv xs"
  by (cases xs) auto

lemma sweep_ins_covered:
  "coverage_inv (m # M) \<Longrightarrow> j \<in> set (m # M) \<Longrightarrow> covers j i \<Longrightarrow> well_formed i \<Longrightarrow>
     sweep m (ins i M) = m # M"
proof (induction M arbitrary: m)
  case Nil
  then show ?case by (auto simp: covers_def well_formed_def max_def)
next
  case (Cons m' M)
  from Cons.prems(1) have gap: "iv_end m + 1 < iv_start m'" and inv': "coverage_inv (m' # M)"
    by auto
  show ?case
  proof (cases "j = m")
    case True
    with Cons.prems(3,4) gap have lt: "iv_start i < iv_start m'" and near: "iv_start i \<le> iv_end m + 1"
      and mx: "max (iv_end m) (iv_end i) = iv_end m"
      by (auto simp: covers_def well_formed_def)
    from lt have "ins i (m' # M) = i # m' # M" by simp
    with near mx have "sweep m (ins i (m' # M)) = sweep m (m' # M)" by simp
    with sweep_separated [OF Cons.prems(1)] show ?thesis by simp
  next
    case False
    with Cons.prems(2) have j: "j \<in> set (m' # M)" by simp
    have "iv_start m' \<le> iv_start j"
      using coverage_inv_sorted [OF inv'] j by auto
    with Cons.prems(3) have le: "iv_start m' \<le> iv_start i" by (simp add: covers_def)
    then have "sweep m (ins i (m' # M)) = m # sweep m' (ins i M)"
      using gap by simp
    with Cons.IH [OF inv' j Cons.prems(3,4)] show ?thesis by simp
  qed
qed

lemma merge_updated_covered:
  assumes "coverage_inv S" "j \<in> set S" "covers j i" "well_formed i"
  shows "merge_updated S i = S"
proof -
  from assms(2) obtain m M where S: "S = m # M" by (cases S) auto
  have "iv_start m \<le> iv_start j"
    using coverage_inv_sorted [OF assms(1)] assms(2) S by auto
  with assms(3) have le: "iv_start m \<le> iv_start i" by (simp add: covers_def)
  have "sort_key iv_start (S @ [i]) = ins i S"
    using coverage_inv_sorted [OF assms(1)] by (rule sort_key_snoc)
  with le S have "sort_key iv_start (S @ [i]) = m # ins i M" by simp
  then have "mergeIntervals (S @ [i]) = sweep m (ins i M)"
    by (rule mergeIntervals_sweep) (simp add: S)
  with sweep_ins_covered [of m M j i] assms S show ?thesis
    by (simp add: merge_updated_def)
qed

lemma coverage_inv_mergeIntervals_any: "coverage_inv (mergeIntervals xs)"
proof (cases "length xs \<le> 1")
  case True
  then show ?thesis by (simp add: mergeIntervals_def coverage_inv_short)
next
  case False
  then show ?thesis by (simp add: coverage_inv_mergeIntervals)
qed

lemma coverage_inv_merge_updated: "coverage_inv (merge_updated S i)"
  by (simp add: merge_updated_def coverage_inv_mergeIntervals_any)

lemma merge_updated_covers_new: "\<exists>j\<in>set (merge_updated S i). covers j i"
proof (cases S)
  case Nil
  then show ?thesis by (simp add: merge_updated_def mergeIntervals_def covers_refl)
next
  case (Cons s S')
  then have len: "length (S @ [i]) > 1" by simp
  then have "sort_key iv_start (S @ [i]) \<noteq> []"
    by (metis length_sort list.size(3) not_less_zero)
  then obtain y ys where s: "sort_key iv_start (S @ [i]) = y # ys"
    by (cases "sort_key iv_start (S @ [i])") auto
  have srt: "sorted (map iv_start (y # ys))"
    using sorted_sort_key [of iv_start "S @ [i]"] s by simp
  have "i \<in> set (y # ys)"
    using set_sort [of iv_start "S @ [i]"] s by auto
  then have "covers y i \<or> i \<in> set ys" by (auto simp: covers_refl)
  from sweep_covers [OF srt this] mergeIntervals_sweep [OF s len]
  show ?thesis by (simp add: merge_updated_def)
qed

lemma foldl_unique:
  "foldl (\<lambda>total interval. total + (iv_end interval - iv_start interval)) a xs =
     a + sum_list (map iv_length xs)"
  by (induction xs arbitrary: a) (simp_all add: iv_length_def)

lemma unique_sum: "calculateUniqueTime xs = sum_list (map iv_length xs)"
  by (simp add: calculateUniqueTime_def foldl_unique)

lemma unique_Nil: "calculateUniqueTime [] = 0"
  by (simp add: unique_sum)

lemma unique_Cons: "calculateUniqueTime (x # xs) = iv_length x + calculateUniqueTime xs"
  by (simp add: unique_sum)

lemma sweep_gap:
  "xs = [] \<or> iv_end cur + 1 < iv_start (hd xs) \<Longrightarrow> coverage_inv xs \<Longrightarrow> sweep cur xs = cur # xs"
  by (cases xs) (auto simp: sweep_separated)

lemma sweep_bound:
  "coverage_inv B \<Longrightarrow> list_all well_formed B \<Longrightarrow>
     calculateUniqueTime (sweep cur B) \<le> iv_length cur + calculateUniqueTime B + 1"
proof (induction B arbitrary: cur)
  case Nil
  show ?case by (simp add: unique_Cons unique_Nil)
next
  case (Cons b B)
  from Cons.prems have inv: "coverage_inv B" and wf: "list_all well_formed B"
    by (auto simp: coverage_inv_tail)
  from Cons.prems have wfb: "iv_start b \<le> iv_end b"
    by (simp add: well_formed_def)
  show ?case
  proof (cases "iv_start b \<le> iv_end cur + 1")
    case near: True
    show ?thesis
    proof (cases "iv_end b \<le> iv_end cur")
      case True
      then have "sweep cur (b # B) = sweep cur B"
        using near by (simp add: max_def)
      with Cons.IH [OF inv wf, of cur] wfb show ?thesis
        by (simp add: unique_Cons iv_length_def)
    next
      case False
      let ?cur = "cur\<lparr>iv_end := iv_end b\<rparr>"
      from False near have sw: "sweep cur (b # B) = sweep ?cur B"
        by (simp add: max_def)
      have "B = [] \<or> iv_end ?cur + 1 < iv_start (hd B)"
        using Cons.prems(1) by (cases B) auto
      then have "sweep ?cur B = ?cur # B"
        using inv by (rule sweep_gap)
      with sw near show ?thesis
        by (simp add: unique_Cons iv_length_def)
    qed
  next
    case False
    then have "sweep cur (b # B) = cur # b # B"
      using sweep_separated [OF Cons.prems(1)] by simp
    then show ?thesis by (simp add: unique_Cons)
  qed
qed

lemma sweep_ins_bound:
  "coverage_inv (s # S) \<Longrightarrow> list_all well_formed (s # S) \<Longrightarrow> well_formed i \<Longrightarrow>
     calculateUniqueTime (sweep s (ins i S))
       \<le> iv_length s + calculateUniqueTime S + iv_length i + 2"
proof (induction S arbitrary: s)
  case Nil
  then show ?case
    by (auto simp: unique_Cons unique_Nil iv_length_def well_formed_def max_def)
next
  case (Cons t T)
  from Cons.prems have inv: "coverage_inv (t # T)" and wf: "list_all well_formed (t # T)"
    and gap: "iv_end s + 1 < iv_start t"
    by auto
  from Cons.prems have wfi: "iv_start i \<le> iv_end i"
    by (simp add: well_formed_def)
  show ?case
  proof (cases "iv_start t \<le> iv_start i")
    case True
    then have "sweep s (ins i (t # T)) = s # sweep t (ins i T)"
      using gap by simp
    with Cons.IH [OF inv wf Cons.prems(3)] show ?thesis
      by (simp add: unique_Cons)
  next
    case False
    then have i: "ins i (t # T) = i # t # T" by simp
    show ?thesis
    proof (cases "iv_start i \<le> iv_end s + 1")
      case near: True
      let ?cur = "s\<lparr>iv_end := max (iv_end s) (iv_end i)\<rparr>"
      have "calculateUniqueTime (sweep ?cur (t # T))
              \<le> iv_length ?cur + calculateUniqueTime (t # T) + 1"
        using inv wf by (rule sweep_bound)
      moreover have "iv_length ?cur \<le> iv_length s + iv_length i + 1"
        using near wfi by (simp add: iv_length_def max_def)
      ultimately show ?thesis
        using i near by simp
    next
      case far: False
      have "calculateUniqueTime (sweep i (t # T))
              \<le> iv_length i + calculateUniqueTime (t # T) + 1"
        using inv wf by (rule sweep_bound)
      with i far show ?thesis by (simp add: unique_Cons)
    qed
  qed
qed

lemma merge_updated_bound:
  assumes "coverage_inv S" "list_all well_formed S" "well_formed i"
  shows "calculateUniqueTime (merge_updated S i) \<le> calculateUniqueTime S + iv_length i + 2"
proof (cases S)
  case Nil
  then show ?thesis
    by (simp add: merge_updated_def mergeIntervals_def unique_Cons unique_Nil)
next
  case (Cons s S')
  have srt: "sort_key iv_start (S @ [i]) = ins i S"
    using coverage_inv_sorted [OF assms(1)] by (rule sort_key_snoc)
  show ?thesis
  proof (cases "iv_start s \<le> iv_start i")
    case True
    with srt Cons have "sort_key iv_start (S @ [i]) = s # ins i S'" by simp
    then have "mergeIntervals (S @ [i]) = sweep s (ins i S')"
      by (rule mergeIntervals_sweep) (simp add: Cons)
    with sweep_ins_bound [of s S' i] assms Cons show ?thesis
      by (simp add: merge_updated_def unique_Cons)
  next
    case False
    with srt Cons have "sort_key iv_start (S @ [i]) = i # s # S'" by simp
    then have "mergeIntervals (S @ [i]) = sweep i (s # S')"
      by (rule mergeIntervals_sweep) (simp add: Cons)
    with sweep_bound [of S i] assms Cons show ?thesis
      by (simp add: merge_updated_def)
  qed
qed

lemma unique_ins: "calculateUniqueTime (ins i S) = calculateUniqueTime S + iv_length i"
  by (induction S) (simp_all add: unique_Cons unique_Nil)

lemma hd_ins:
  "iv_start (hd (ins i S)) = (if S \<noteq> [] \<and> iv_start (hd S) \<le> iv_start i then iv_start (hd S) else iv_start i)"
  by (cases S) auto

lemma coverage_inv_ins:
  "coverage_inv S \<Longrightarrow> list_all well_formed S \<Longrightarrow> well_formed i \<Longrightarrow> \<forall>j\<in>set S. apart i j \<Longrightarrow>
     coverage_inv (ins i S)"
proof (induction S)
  case Nil
  show ?case by simp
next
  case (Cons s S)
  from Cons.prems have inv: "coverage_inv S" and wf: "list_all well_formed S"
    and ap: "\<forall>j\<in>set S. apart i j" and aps: "apart i s"
    by (auto simp: coverage_inv_tail)
  from Cons.prems have wfs: "iv_start s \<le> iv_end s" and wfi: "iv_start i \<le> iv_end i"
    by (simp_all add: well_formed_def)
  show ?case
  proof (cases "iv_start s \<le> iv_start i")
    case True
    with aps wfi have gap: "iv_end s + 1 < iv_start i" by (auto simp: apart_def)
    have "coverage_inv (ins i S)" using Cons.IH [OF inv wf Cons.prems(3) ap] .
    moreover have "ins i S \<noteq> []" by (cases S) auto
    ultimately show ?thesis
      using True gap Cons.prems(1)
      by (auto simp: coverage_inv_Cons [of s] hd_ins)
  next
    case False
    with aps wfs have "iv_end i + 1 < iv_start s" by (auto simp: apart_def)
    with False Cons.prems(1) show ?thesis by simp
  qed
qed

lemma ins_not_Nil: "ins i S \<noteq> []"
  by (cases S) auto

lemma merge_updated_apart:
  assumes "coverage_inv S" "list_all well_formed S" "well_formed i" "\<forall>j\<in>set S. apart i j"
  shows "merge_updated S i = ins i S"
proof (cases S)
  case Nil
  then show ?thesis by (simp add: merge_updated_def mergeIntervals_def)
next
  case (Cons s S')
  have srt: "sort_key iv_start (S @ [i]) = ins i S"
    using coverage_inv_sorted [OF assms(1)] by (rule sort_key_snoc)
  obtain y ys where y: "ins i S = y # ys"
    using ins_not_Nil [of i S] by (cases "ins i S") auto
  with srt have "mergeIntervals (S @ [i]) = sweep y ys"
    by (intro mergeIntervals_sweep) (simp_all add: Cons)
  moreover have "coverage_inv (y # ys)"
    using coverage_inv_ins [OF assms] y by simp
  ultimately show ?thesis
    using y by (simp add: merge_updated_def sweep_separated)
qed

lemma unique_le_span:
  "coverage_inv (x # xs) \<Longrightarrow> list_all (on_timeline D) (x # xs) \<Longrightarrow>
     calculateUniqueTime (x # xs) \<le> D - iv_start x"
proof (induction xs arbitrary: x)
  case Nil
  then show ?case by (simp add: unique_Cons unique_Nil on_timeline_def iv_length_def)
next
  case (Cons y ys)
  from Cons.prems have "coverage_inv (y # ys)" and "list_all (on_timeline D) (y # ys)"
    by auto
  then have "calculateUniqueTime (y # ys) \<le> D - iv_start y" by (rule Cons.IH)
  moreover from Cons.prems have "iv_end x < iv_start y" by simp
  ultimately show ?case by (simp add: unique_Cons [of x] iv_length_def)
qed

lemma unique_le_duration:
  assumes "in_range D xs" "0 \<le> D"
  shows "calculateUniqueTime xs \<le> D"
proof (cases xs)
  case Nil
  with assms show ?thesis by (simp add: unique_Nil)
next
  case (Cons x xs')
  with assms have "calculateUniqueTime xs \<le> D - iv_start x" and "0 \<le> iv_start x"
    using unique_le_span [of x xs' D] by (auto simp: in_range_def on_timeline_def)
  then show ?thesis by simp
qed

lemma on_timeline_sweep:
  "on_timeline D cur \<Longrightarrow> list_all (on_timeline D) xs \<Longrightarrow> list_all (on_timeline D) (sweep cur xs)"
proof (induction xs arbitrary: cur)
  case Nil
  then show ?case by simp
next
  case (Cons x xs)
  then have "on_timeline D (cur\<lparr>iv_end := max (iv_end cur) (iv_end x)\<rparr>)"
    by (auto simp: on_timeline_def max_def)
  with Cons show ?case by auto
qed

lemma on_timeline_mergeIntervals:
  assumes "list_all (on_timeline D) xs"
  shows "list_all (on_timeline D) (mergeIntervals xs)"
proof (cases "length xs \<le> 1")
  case True
  with assms show ?thesis by (simp add: mergeIntervals_def)
next
  case False
  then have len: "length xs > 1" by simp
  then have "sort_key iv_start xs \<noteq> []"
    by (metis length_sort list.size(3) not_less_zero)
  then obtain y ys where s: "sort_key iv_start xs = y # ys"
    by (cases "sort_key iv_start xs") auto
  have "list_all (on_timeline D) (sort_key iv_start xs)"
    using assms by (simp add: list_all_iff)
  with s have "on_timeline D y" and "list_all (on_timeline D) ys" by auto
  then have "list_all (on_timeline D) (sweep y ys)" by (rule on_timeline_sweep)
  with mergeIntervals_sweep [OF s len] show ?thesis by simp
qed

lemma in_range_merge_updated:
  "in_range D xs \<Longrightarrow> on_timeline D i \<Longrightarrow> in_range D (merge_updated xs i)"
  using on_timeline_mergeIntervals [of D "xs @ [i]"]
  by (simp add: in_range_def coverage_inv_merge_updated) (simp add: merge_updated_def)

lemma recordWatchedSegment_in_range:
  assumes "in_range D (watchedIntervals st)"
    and "\<And>s v. currentWatchStart st = Some s \<Longrightarrow> videoRef st = Some v \<Longrightarrow> 0 \<le> s \<and> currentTime v \<le> D"
  shows "in_range D (watchedIntervals (recordWatchedSegment st))"
proof (cases "currentWatchStart st")
  case None
  with assms(1) show ?thesis by (simp add: recordWatchedSegment_def)
next
  case (Some s)
  show ?thesis
  proof (cases "videoRef st")
    case None
    with Some assms(1) show ?thesis by (simp add: recordWatchedSegment_def)
  next
    case v: (Some v)
    from assms(2) [OF Some v] have b: "0 \<le> s" "currentTime v \<le> D" by auto
    show ?thesis
    proof (cases "currentTime v > s \<and> currentTime v - s \<ge> 1 / 2")
      case True
      with b have "on_timeline D \<lparr>iv_start = s, iv_end = currentTime v\<rparr>"
        by (simp add: on_timeline_def)
      with assms(1) have "in_range D (merge_updated (watchedIntervals st) \<lparr>iv_start = s, iv_end = currentTime v\<rparr>)"
        by (rule in_range_merge_updated)
      with True Some v show ?thesis by (simp add: recordWatchedSegment_def Let_def)
    next
      case False
      with Some v assms(1) show ?thesis by (auto simp: recordWatchedSegment_def Let_def)
    qed
  qed
qed

lemma proper_sweep:
  "proper cur \<Longrightarrow> list_all proper xs \<Longrightarrow> list_all proper (sweep cur xs)"
proof (induction xs arbitrary: cur)
  case Nil
  then show ?case by simp
next
  case (Cons x xs)
  then have "proper (cur\<lparr>iv_end := max (iv_end cur) (iv_end x)\<rparr>)"
    by (auto simp: proper_def max_def)
  with Cons show ?case by auto
qed

lemma proper_mergeIntervals:
  assumes "list_all proper xs"
  shows "list_all proper (mergeIntervals xs)"
proof (cases "length xs \<le> 1")
  case True
  with assms show ?thesis by (simp add: mergeIntervals_def)
next
  case False
  then have len: "length xs > 1" by simp
  then have "sort_key iv_start xs \<noteq> []"
    by (metis length_sort list.size(3) not_less_zero)
  then obtain y ys where s: "sort_key iv_start xs = y # ys"
    by (cases "sort_key iv_start xs") auto
  have "list_all proper (sort_key iv_start xs)"
    using assms by (simp add: list_all_iff)
  with s have "proper y" and "list_all proper ys" by auto
  then have "list_all proper (sweep y ys)" by (rule proper_sweep)
  with mergeIntervals_sweep [OF s len] show ?thesis by simp
qed

lemma coverage_set_merge_updated:
  "list_all proper xs \<Longrightarrow> proper i \<Longrightarrow> coverage_set (merge_updated xs i)"
  using proper_mergeIntervals [of "xs @ [i]"]
  by (simp add: coverage_set_def coverage_inv_merge_updated) (simp add: merge_updated_def)

section \<open>Lemmas on the handlers\<close>

lemma handleTimeUpdate_seek:
  "videoRef st = Some v \<Longrightarrow> 2 < \<bar>currentTime v - lastPosition st\<bar> \<Longrightarrow>
     watchedIntervals (handleTimeUpdate st) = watchedIntervals (recordWatchedSegment st) \<and>
     sessionWatchedTime (handleTimeUpdate st) = sessionWatchedTime (recordWatchedSegment st) \<and>
     currentWatchStart (handleTimeUpdate st) = (if paused v then None else Some (currentTime v))"
  by (simp add: handleTimeUpdate_def Let_def recordWatchedSegment_def split: option.splits)

text \<open>
  An object that ends more than 1 before it starts is not an interval of the data model,
  and \<^const>\<open>recordWatchedSegment\<close> never builds one; merging it twice is not merging it once.
\<close>

lemma merge_updated_ill_formed:
  "merge_updated (merge_updated [] \<lparr>iv_start = 1, iv_end = - 1\<rparr>) \<lparr>iv_start = 1, iv_end = - 1\<rparr>
     = [\<lparr>iv_start = 1, iv_end = - 1\<rparr>, \<lparr>iv_start = 1, iv_end = - 1\<rparr>]"
  by (simp add: merge_updated_def mergeIntervals_def merge_step_def Let_def)

section \<open>Lemmas on the runs\<close>

text \<open>
  Every handler keeps the player, the intervals, the open segment and the stored record on
  the timeline; the display update then gives the progress its value.
\<close>

lemma recordWatchedSegment_fields:
  "videoRef (recordWatchedSegment st) = videoRef st"
  "totalDuration (recordWatchedSegment st) = totalDuration st"
  "currentProgress (recordWatchedSegment st) = currentProgress st"
  "sessionStorage (recordWatchedSegment st) = sessionStorage st"
  "currentWatchStart (recordWatchedSegment st) = None"
  by (simp_all add: recordWatchedSegment_def Let_def split: option.splits)

lemma base_recordWatchedSegment: "base D st \<Longrightarrow> base D (recordWatchedSegment st)"
proof -
  assume b: "base D st"
  then have "in_range D (watchedIntervals st)" by (simp add: base_def)
  moreover have "0 \<le> s \<and> currentTime v \<le> D"
    if "currentWatchStart st = Some s" "videoRef st = Some v" for s v
    using b that by (simp add: base_def)
  ultimately have "in_range D (watchedIntervals (recordWatchedSegment st))"
    by (rule recordWatchedSegment_in_range)
  with b show ?thesis by (simp add: base_def recordWatchedSegment_fields)
qed

lemma base_isPlaying: "base D (st\<lparr>isPlaying := b\<rparr>) = base D st"
  by (simp add: base_def)

lemma base_handlePlay: "base D st \<Longrightarrow> base D (handlePlay st)"
  by (auto simp: base_def handlePlay_def Let_def split: option.splits)

lemma base_handlePause: "base D st \<Longrightarrow> base D (handlePause st)"
  by (simp add: handlePause_def base_recordWatchedSegment base_isPlaying)

lemma base_handleEnded: "base D st \<Longrightarrow> base D (handleEnded st)"
  by (simp add: handleEnded_def base_recordWatchedSegment base_isPlaying)

lemma base_open_segment:
  "base D st \<Longrightarrow> videoRef st = Some v \<Longrightarrow> base D (st\<lparr>currentWatchStart := Some (currentTime v)\<rparr>)"
  by (simp add: base_def)

lemma base_handleSeeked: "base D st \<Longrightarrow> base D (handleSeeked st)"
proof -
  assume b: "base D st"
  then obtain v where v: "videoRef st = Some v" by (auto simp: base_def split: option.splits)
  from b have r: "base D (recordWatchedSegment st)" by (rule base_recordWatchedSegment)
  have "base D ((recordWatchedSegment st)\<lparr>currentWatchStart := Some (currentTime v)\<rparr>)"
    using r v by (intro base_open_segment) (simp_all add: recordWatchedSegment_fields)
  with r v show ?thesis by (simp add: handleSeeked_def Let_def)
qed

lemma base_lastPosition: "base D (st\<lparr>lastPosition := p\<rparr>) = base D st"
  by (simp add: base_def)

lemma base_handleTimeUpdate: "base D st \<Longrightarrow> base D (handleTimeUpdate st)"
proof -
  assume b: "base D st"
  then obtain v where v: "videoRef st = Some v" by (auto simp: base_def split: option.splits)
  from b have r: "base D (recordWatchedSegment st)" by (rule base_recordWatchedSegment)
  have "base D ((recordWatchedSegment st)\<lparr>currentWatchStart := Some (currentTime v)\<rparr>)"
    using r v by (intro base_open_segment) (simp_all add: recordWatchedSegment_fields)
  with b r v show ?thesis by (simp add: handleTimeUpdate_def Let_def base_lastPosition)
qed

lemma base_handleLoadedMetadata: "base D st \<Longrightarrow> base D (handleLoadedMetadata st)"
  by (auto simp: base_def handleLoadedMetadata_def split: option.splits)

lemma base_loadProgress: "base D st \<Longrightarrow> base D (loadProgress st)"
  by (auto simp: base_def loadProgress_def record_ok_def in_range_def Let_def
      split: option.splits stored.splits)

lemma base_saveProgressToStorage: "base D st \<Longrightarrow> base D (saveProgressToStorage stamp st)"
  by (auto simp: base_def saveProgressToStorage_def record_ok_def Let_def split: option.splits)

lemma base_resetProgress: "base D st \<Longrightarrow> base D (resetProgress c st)"
  by (auto simp: base_def resetProgress_def in_range_def split: option.splits)

lemma handler_progress:
  "currentProgress (handlePlay st) = currentProgress st"
  "totalDuration (handlePlay st) = totalDuration st"
  "currentProgress (handlePause st) = currentProgress st"
  "totalDuration (handlePause st) = totalDuration st"
  "currentProgress (handleSeeked st) = currentProgress st"
  "totalDuration (handleSeeked st) = totalDuration st"
  "currentProgress (handleTimeUpdate st) = currentProgress st"
  "totalDuration (handleTimeUpdate st) = totalDuration st"
  "currentProgress (handleEnded st) = currentProgress st"
  "totalDuration (handleEnded st) = totalDuration st"
  "currentProgress (loadProgress st) = currentProgress st"
  "totalDuration (loadProgress st) = totalDuration st"
  "currentProgress (saveProgressToStorage stamp st) = currentProgress st"
  "totalDuration (saveProgressToStorage stamp st) = totalDuration st"
  "currentProgress (handleLoadedMetadata st) = currentProgress st"
  "totalDuration (resetProgress c st) = totalDuration st"
  by (simp_all add: handlePlay_def handlePause_def handleSeeked_def handleTimeUpdate_def
      handleEnded_def loadProgress_def saveProgressToStorage_def handleLoadedMetadata_def
      resetProgress_def recordWatchedSegment_fields Let_def split: option.splits stored.splits)

lemma updateDisplay_settles:
  "base D st \<Longrightarrow> 0 < totalDuration st \<or> currentProgress st = 0 \<Longrightarrow> settled D (updateDisplay st)"
  by (auto simp: settled_def base_def updateDisplay_def Let_def)

lemma settled_keeps:
  "settled D st \<Longrightarrow> 0 < totalDuration st \<or> currentProgress st = 0"
  by (auto simp: settled_def)

lemma settled_base: "settled D st \<Longrightarrow> base D st"
  by (simp add: settled_def)

lemma settled_handler:
  assumes "settled D st" "base D (h st)" "totalDuration (h st) = totalDuration st"
    "currentProgress (h st) = currentProgress st"
  shows "settled D (updateDisplay (h st))"
proof -
  from settled_keeps [OF assms(1)] assms(3,4)
  have "0 < totalDuration (h st) \<or> currentProgress (h st) = 0" by simp
  with assms(2) show ?thesis by (rule updateDisplay_settles)
qed

lemma settled_step: "settled D st \<Longrightarrow> allowed D e \<Longrightarrow> settled D (step D e st)"
proof -
  assume s: "settled D st" and a: "allowed D e"
  note b = settled_base [OF s]
  show ?thesis
  proof (cases e)
    case Play
    have "settled D (updateDisplay (handlePlay st))"
      using s base_handlePlay [OF b] by (rule settled_handler) (simp_all add: handler_progress)
    with Play show ?thesis by simp
  next
    case Pause
    have "settled D (updateDisplay (handlePause st))"
      using s base_handlePause [OF b] by (rule settled_handler) (simp_all add: handler_progress)
    with Pause show ?thesis by simp
  next
    case Seeked
    have "settled D (updateDisplay (handleSeeked st))"
      using s base_handleSeeked [OF b] by (rule settled_handler) (simp_all add: handler_progress)
    with Seeked show ?thesis by simp
  next
    case TimeUpdate
    have "settled D (updateDisplay (handleTimeUpdate st))"
      using s base_handleTimeUpdate [OF b] by (rule settled_handler) (simp_all add: handler_progress)
    with TimeUpdate show ?thesis by simp
  next
    case Ended
    have "settled D (updateDisplay (handleEnded st))"
      using s base_handleEnded [OF b] by (rule settled_handler) (simp_all add: handler_progress)
    with Ended show ?thesis by simp
  next
    case LoadedMetadata
    have "0 < totalDuration (handleLoadedMetadata st) \<or> currentProgress (handleLoadedMetadata st) = 0"
      using s by (auto simp: settled_def base_def handleLoadedMetadata_def split: option.splits)
    with base_handleLoadedMetadata [OF b] have "settled D (updateDisplay (handleLoadedMetadata st))"
      by (rule updateDisplay_settles)
    with LoadedMetadata show ?thesis by simp
  next
    case Load
    have "settled D (updateDisplay (loadProgress st))"
      using s base_loadProgress [OF b] by (rule settled_handler) (simp_all add: handler_progress)
    with Load show ?thesis by simp
  next
    case (Save stamp)
    have "settled D (updateDisplay (saveProgressToStorage stamp st))"
      using s base_saveProgressToStorage [OF b]
      by (rule settled_handler) (simp_all add: handler_progress)
    with Save show ?thesis by simp
  next
    case (Reset c)
    have "0 < totalDuration (resetProgress c st) \<or> currentProgress (resetProgress c st) = 0"
      using settled_keeps [OF s] by (auto simp: resetProgress_def)
    with base_resetProgress [OF b] have "settled D (updateDisplay (resetProgress c st))"
      by (rule updateDisplay_settles)
    with Reset show ?thesis by simp
  next
    case (Moved t p)
    with s a show ?thesis
      by (auto simp: settled_def base_def split: option.splits)
  next
    case (Quota q)
    with s show ?thesis by (simp add: settled_def base_def)
  next
    case Reload
    with s show ?thesis
      by (auto simp: settled_def base_def initial_tracker_def fresh_player_def in_range_def
          split: option.splits stored.splits)
  qed
qed

lemma settled_mounted: "0 \<le> D \<Longrightarrow> settled D (initial_tracker (Some (fresh_player D)) None full)"
  by (simp add: settled_def base_def initial_tracker_def fresh_player_def in_range_def)

lemma reach_settled: "reach D st \<Longrightarrow> settled D st"
  by (induction rule: reach.induct) (simp_all add: settled_mounted settled_step)

lemma reach_run: "reach D st \<Longrightarrow> list_all (allowed D) es \<Longrightarrow> reach D (run D es st)"
  by (induction es arbitrary: st) (auto intro: reach.event)

lemma settled_le_100: "settled D st \<Longrightarrow> currentProgress st \<le> 100"
proof -
  assume s: "settled D st"
  show ?thesis
  proof (cases "0 < totalDuration st")
    case True
    with s have "in_range (totalDuration st) (watchedIntervals st)"
      by (auto simp: settled_def base_def)
    then have "calculateUniqueTime (watchedIntervals st) \<le> totalDuration st"
      using True by (intro unique_le_duration) simp_all
    with True have "calculateUniqueTime (watchedIntervals st) / totalDuration st \<le> 1"
      by (simp add: divide_le_eq)
    then have "calculateUniqueTime (watchedIntervals st) / totalDuration st * 100 \<le> 1 * 100"
      by (rule mult_right_mono) simp
    with s True show ?thesis by (simp add: settled_def)
  next
    case False
    with s show ?thesis by (simp add: settled_def)
  qed
qed

lemma reach_watched_37: "reach 100 watched_37"
  unfolding watched_37_def
  by (rule reach_run) (simp_all add: reach.mounted)

lemma watched_37_values:
  "watchedIntervals watched_37 = [\<lparr>iv_start = 0, iv_end = 37\<rparr>]"
  "totalDuration watched_37 = 100"
  "sessionWatchedTime watched_37 = 37"
  "videoRef watched_37 = Some \<lparr>currentTime = 37, paused = False, duration = 100\<rparr>"
  "quotaExceeded watched_37 = False"
  by (simp_all add: watched_37_def initial_tracker_def fresh_player_def updateDisplay_def
      handleLoadedMetadata_def handlePlay_def handlePause_def recordWatchedSegment_def
      merge_updated_def mergeIntervals_def calculateUniqueTime_def Let_def)



lemma watched_37_progress: "currentProgress watched_37 = 37"
  by (simp add: watched_37_def initial_tracker_def fresh_player_def updateDisplay_def
      handleLoadedMetadata_def handlePlay_def handlePause_def recordWatchedSegment_def
      merge_updated_def mergeIntervals_def calculateUniqueTime_def Let_def)





section \<open>The claims\<close>

text \<open>
  C1. For every list of intervals, the result of \<^verbatim>\<open>mergeIntervals\<close> is sorted ascending
  by start, and every adjacent pair \<open>(i, i+1)\<close> has \<open>i.end < (i+1).start\<close> with a gap
  strictly greater than the tolerance 1. Nothing is assumed of the input: not its order,
  not its length, not that its intervals are well formed.
\<close>

theorem mergeIntervals_invariant:
  "sorted (map iv_start (mergeIntervals xs)) \<and>
   (\<forall>i. Suc i < length (mergeIntervals xs) \<longrightarrow>
      iv_end (mergeIntervals xs ! i) < iv_start (mergeIntervals xs ! Suc i) \<and>
      iv_end (mergeIntervals xs ! i) + 1 < iv_start (mergeIntervals xs ! Suc i))"
proof -
  have inv: "coverage_inv (mergeIntervals xs)"
    by (rule coverage_inv_mergeIntervals_any)
  have "iv_end (mergeIntervals xs ! i) < iv_start (mergeIntervals xs ! Suc i) \<and>
        iv_end (mergeIntervals xs ! i) + 1 < iv_start (mergeIntervals xs ! Suc i)"
    if "Suc i < length (mergeIntervals xs)" for i
    using coverage_inv_nth [OF inv that] by linarith
  with coverage_inv_sorted [OF inv] show ?thesis by blast
qed

theorem mergeIntervals_invariant_witness:
  "Suc 0 < length (mergeIntervals
       [\<lparr>iv_start = 20, iv_end = 30\<rparr>, \<lparr>iv_start = 0, iv_end = 10\<rparr>, \<lparr>iv_start = 5, iv_end = 12\<rparr>]) \<and>
   iv_end (mergeIntervals
       [\<lparr>iv_start = 20, iv_end = 30\<rparr>, \<lparr>iv_start = 0, iv_end = 10\<rparr>, \<lparr>iv_start = 5, iv_end = 12\<rparr>] ! 0) + 1
     < iv_start (mergeIntervals
       [\<lparr>iv_start = 20, iv_end = 30\<rparr>, \<lparr>iv_start = 0, iv_end = 10\<rparr>, \<lparr>iv_start = 5, iv_end = 12\<rparr>] ! Suc 0)"
proof -
  let ?xs = "[\<lparr>iv_start = 20, iv_end = 30\<rparr>, \<lparr>iv_start = 0, iv_end = 10\<rparr>, \<lparr>iv_start = 5, iv_end = 12\<rparr>]"
  have len: "Suc 0 < length (mergeIntervals ?xs)"
    by (simp add: mergeIntervals_def merge_step_def)
  with mergeIntervals_invariant [of ?xs] show ?thesis by blast
qed

text \<open>
  C2. Merging is idempotent: for every list \<open>S\<close> and every interval \<open>i\<close> of the data model
  (one that does not end before it starts), merging \<open>i\<close> a second time changes nothing;
  and merging an interval that lies inside an interval of a coverage set \<open>S\<close> returns \<open>S\<close>
  itself.
\<close>

theorem merge_updated_idempotent:
  "well_formed i \<Longrightarrow>
     merge_updated (merge_updated S i) i = merge_updated S i \<and>
     (coverage_inv S \<and> j \<in> set S \<and> covers j i \<longrightarrow> merge_updated S i = S)"
proof -
  assume wf: "well_formed i"
  obtain k where k: "k \<in> set (merge_updated S i)" and c: "covers k i"
    using merge_updated_covers_new by blast
  have "merge_updated (merge_updated S i) i = merge_updated S i"
    using coverage_inv_merge_updated k c wf by (rule merge_updated_covered)
  then show ?thesis using merge_updated_covered wf by blast
qed

theorem merge_updated_idempotent_witness:
  "well_formed \<lparr>iv_start = 5, iv_end = 8\<rparr> \<and>
   coverage_inv [\<lparr>iv_start = 0, iv_end = 10\<rparr>, \<lparr>iv_start = 20, iv_end = 30\<rparr>] \<and>
   covers \<lparr>iv_start = 0, iv_end = 10\<rparr> \<lparr>iv_start = 5, iv_end = 8\<rparr> \<and>
   merge_updated [\<lparr>iv_start = 0, iv_end = 10\<rparr>, \<lparr>iv_start = 20, iv_end = 30\<rparr>] \<lparr>iv_start = 5, iv_end = 8\<rparr>
     = [\<lparr>iv_start = 0, iv_end = 10\<rparr>, \<lparr>iv_start = 20, iv_end = 30\<rparr>] \<and>
   merge_updated
     (merge_updated [\<lparr>iv_start = 0, iv_end = 10\<rparr>, \<lparr>iv_start = 20, iv_end = 30\<rparr>] \<lparr>iv_start = 5, iv_end = 8\<rparr>)
     \<lparr>iv_start = 5, iv_end = 8\<rparr>
     = merge_updated [\<lparr>iv_start = 0, iv_end = 10\<rparr>, \<lparr>iv_start = 20, iv_end = 30\<rparr>] \<lparr>iv_start = 5, iv_end = 8\<rparr>"
proof -
  let ?S = "[\<lparr>iv_start = 0, iv_end = 10\<rparr>, \<lparr>iv_start = 20, iv_end = 30\<rparr>]"
  let ?i = "\<lparr>iv_start = 5, iv_end = 8\<rparr>"
  let ?j = "\<lparr>iv_start = 0, iv_end = 10\<rparr>"
  have wf: "well_formed ?i" by (simp add: well_formed_def)
  have inv: "coverage_inv ?S" by simp
  have mem: "?j \<in> set ?S" by simp
  have cov: "covers ?j ?i" by (simp add: covers_def)
  from merge_updated_idempotent [OF wf, of ?S ?j] wf inv mem cov show ?thesis by blast
qed

text \<open>
  C3, as amended. For every coverage set \<open>S\<close> of well-formed intervals and every well-formed
  interval \<open>i\<close>, the unique covered time after merging \<open>i\<close> is at most the unique covered
  time of \<open>S\<close> plus the length of \<open>i\<close> plus 2 (the tolerance 1 on each side of \<open>i\<close>, which
  the merge counts as covered when it bridges a gap); and when \<open>i\<close> is more than the
  tolerance away from every interval of \<open>S\<close>, it is exactly the unique covered time of \<open>S\<close>
  plus the length of \<open>i\<close>.
\<close>

theorem coverage_bound_with_tolerance:
  "coverage_inv S \<Longrightarrow> list_all well_formed S \<Longrightarrow> well_formed i \<Longrightarrow>
     calculateUniqueTime (merge_updated S i)
       \<le> calculateUniqueTime S + (iv_end i - iv_start i) + 2 \<and>
     ((\<forall>j\<in>set S. apart i j) \<longrightarrow>
        calculateUniqueTime (merge_updated S i) = calculateUniqueTime S + (iv_end i - iv_start i))"
  using merge_updated_bound [of S i] merge_updated_apart [of S i] unique_ins [of i S]
  by (auto simp: iv_length_def)

theorem coverage_bound_with_tolerance_witness:
  "coverage_inv [\<lparr>iv_start = 0, iv_end = 10\<rparr>, \<lparr>iv_start = 30, iv_end = 40\<rparr>] \<and>
   well_formed \<lparr>iv_start = 0, iv_end = 10\<rparr> \<and> well_formed \<lparr>iv_start = 30, iv_end = 40\<rparr> \<and>
   well_formed \<lparr>iv_start = 15, iv_end = 20\<rparr> \<and>
   apart \<lparr>iv_start = 15, iv_end = 20\<rparr> \<lparr>iv_start = 0, iv_end = 10\<rparr> \<and>
   apart \<lparr>iv_start = 15, iv_end = 20\<rparr> \<lparr>iv_start = 30, iv_end = 40\<rparr> \<and>
   calculateUniqueTime
     (merge_updated [\<lparr>iv_start = 0, iv_end = 10\<rparr>, \<lparr>iv_start = 30, iv_end = 40\<rparr>] \<lparr>iv_start = 15, iv_end = 20\<rparr>)
     = calculateUniqueTime [\<lparr>iv_start = 0, iv_end = 10\<rparr>, \<lparr>iv_start = 30, iv_end = 40\<rparr>] + (20 - 15)"
proof -
  let ?S = "[\<lparr>iv_start = 0, iv_end = 10\<rparr>, \<lparr>iv_start = 30, iv_end = 40\<rparr>]"
  let ?i = "\<lparr>iv_start = 15, iv_end = 20\<rparr>"
  have inv: "coverage_inv ?S" by simp
  have wfS: "list_all well_formed ?S" by (simp add: well_formed_def)
  have wf: "well_formed ?i" by (simp add: well_formed_def)
  have ap: "\<forall>j\<in>set ?S. apart ?i j" by (simp add: apart_def)
  from coverage_bound_with_tolerance [OF inv wfS wf] ap
  have "calculateUniqueTime (merge_updated ?S ?i) = calculateUniqueTime ?S + (iv_end ?i - iv_start ?i)"
    by blast
  with inv wfS wf ap show ?thesis by simp
qed

text \<open>
  The claim as stated fails both ways. With \<open>S = [0, 10]\<close> and \<open>i = [10.5, 20]\<close> the merge
  bridges the gap of 0.5: the result \<open>[0, 20]\<close> covers 20, more than \<open>10 + 9.5\<close>. With
  \<open>i = [10, 20]\<close> the sum is reached exactly although \<open>i\<close> is within the tolerance of \<open>S\<close>.
\<close>

theorem coverage_bound_counterexample:
  "\<not> calculateUniqueTime (merge_updated [\<lparr>iv_start = 0, iv_end = 10\<rparr>] \<lparr>iv_start = 21 / 2, iv_end = 20\<rparr>)
        \<le> calculateUniqueTime [\<lparr>iv_start = 0, iv_end = 10\<rparr>] + (20 - 21 / 2) \<and>
   calculateUniqueTime (merge_updated [\<lparr>iv_start = 0, iv_end = 10\<rparr>] \<lparr>iv_start = 10, iv_end = 20\<rparr>)
        = calculateUniqueTime [\<lparr>iv_start = 0, iv_end = 10\<rparr>] + (20 - 10) \<and>
   \<not> apart \<lparr>iv_start = 10, iv_end = 20\<rparr> \<lparr>iv_start = 0, iv_end = 10\<rparr>"
  by (simp add: merge_updated_def mergeIntervals_def merge_step_def calculateUniqueTime_def apart_def)

text \<open>
  C4. On a jump of more than 2 seconds \<^verbatim>\<open>handleTimeUpdate\<close> closes the open segment and,
  when the player is not paused, opens a new one at the current position. The close
  boundary is not the position before the jump: \<^verbatim>\<open>recordWatchedSegment\<close> reads the
  player's current time, which is the position after it. Playing from 0, last seen at 10,
  then seeking to 100: the segment recorded is \<open>[0, 100]\<close> and 100 seconds are added to the
  session time, where the segment before the seek is \<open>[0, 10]\<close>.
\<close>

theorem handleTimeUpdate_seek_closes_at_current_position:
  "watchedIntervals (handleTimeUpdate
      ((initial_tracker (Some (playing_at 100 600)) None False)
         \<lparr>isPlaying := True, currentWatchStart := Some 0, lastPosition := 10\<rparr>))
     = [\<lparr>iv_start = 0, iv_end = 100\<rparr>] \<and>
   sessionWatchedTime (handleTimeUpdate
      ((initial_tracker (Some (playing_at 100 600)) None False)
         \<lparr>isPlaying := True, currentWatchStart := Some 0, lastPosition := 10\<rparr>))
     = 100 \<and>
   currentWatchStart (handleTimeUpdate
      ((initial_tracker (Some (playing_at 100 600)) None False)
         \<lparr>isPlaying := True, currentWatchStart := Some 0, lastPosition := 10\<rparr>))
     = Some 100"
  by (simp add: handleTimeUpdate_def recordWatchedSegment_def Let_def initial_tracker_def
      playing_at_def merge_updated_def mergeIntervals_def)

text \<open>
  C5, as amended. Persistence round trip. When the write to the storage goes through,
  loading the saved record in a freshly mounted component (its player at position 0)
  brings back the intervals, the session time and the position of the player.
  \<^verbatim>\<open>loadProgress\<close> does not read the total duration and the progress from the record:
  both are 0 after the load, and they are set again by the metadata report (the duration
  of the medium) and the display update (the unique covered time over that duration,
  times 100).
\<close>

theorem load_saved_record_in_fresh_component:
  "\<not> quotaExceeded st \<Longrightarrow> videoRef st = Some v \<Longrightarrow> currentTime v' = 0 \<Longrightarrow>
     watchedIntervals (loadProgress
        (initial_tracker (Some v') (sessionStorage (saveProgressToStorage stamp st)) full))
       = watchedIntervals st \<and>
     sessionWatchedTime (loadProgress
        (initial_tracker (Some v') (sessionStorage (saveProgressToStorage stamp st)) full))
       = sessionWatchedTime st \<and>
     map_option currentTime (videoRef (loadProgress
        (initial_tracker (Some v') (sessionStorage (saveProgressToStorage stamp st)) full)))
       = Some (currentTime v) \<and>
     totalDuration (loadProgress
        (initial_tracker (Some v') (sessionStorage (saveProgressToStorage stamp st)) full)) = 0 \<and>
     currentProgress (loadProgress
        (initial_tracker (Some v') (sessionStorage (saveProgressToStorage stamp st)) full)) = 0 \<and>
     totalDuration (updateDisplay (handleLoadedMetadata (loadProgress
        (initial_tracker (Some v') (sessionStorage (saveProgressToStorage stamp st)) full))))
       = duration v' \<and>
     (0 < duration v' \<longrightarrow>
        currentProgress (updateDisplay (handleLoadedMetadata (loadProgress
          (initial_tracker (Some v') (sessionStorage (saveProgressToStorage stamp st)) full))))
          = calculateUniqueTime (watchedIntervals st) / duration v' * 100)"
  by (auto simp: saveProgressToStorage_def loadProgress_def initial_tracker_def
      handleLoadedMetadata_def updateDisplay_def Let_def split: option.splits)

theorem load_saved_record_in_fresh_component_witness:
  "\<not> quotaExceeded watched_37 \<and>
   videoRef watched_37 = Some \<lparr>currentTime = 37, paused = False, duration = 100\<rparr> \<and>
   currentTime (fresh_player 100) = 0 \<and>
   watchedIntervals (loadProgress
      (initial_tracker (Some (fresh_player 100)) (sessionStorage (saveProgressToStorage 0 watched_37)) False))
     = [\<lparr>iv_start = 0, iv_end = 37\<rparr>] \<and>
   map_option currentTime (videoRef (loadProgress
      (initial_tracker (Some (fresh_player 100)) (sessionStorage (saveProgressToStorage 0 watched_37)) False)))
     = Some 37"
proof -
  have q: "\<not> quotaExceeded watched_37" by (simp add: watched_37_values)
  have v: "videoRef watched_37 = Some \<lparr>currentTime = 37, paused = False, duration = 100\<rparr>"
    by (simp add: watched_37_values)
  have f: "currentTime (fresh_player 100) = 0" by (simp add: fresh_player_def)
  from load_saved_record_in_fresh_component [OF q v f, of 0 False] q v f show ?thesis
    by (simp add: watched_37_values)
qed

text \<open>
  The claim as stated fails for the total duration and the progress: a reached state with
  total duration 100 and progress 37 is saved, and after the load in the reloaded page
  both are 0.
\<close>

theorem load_drops_duration_and_progress_counterexample:
  "reach 100 watched_37 \<and> totalDuration watched_37 = 100 \<and> currentProgress watched_37 = 37 \<and>
   totalDuration (loadProgress
      (initial_tracker (Some (fresh_player 100)) (sessionStorage (saveProgressToStorage 0 watched_37)) False))
     = 0 \<and>
   currentProgress (loadProgress
      (initial_tracker (Some (fresh_player 100)) (sessionStorage (saveProgressToStorage 0 watched_37)) False))
     = 0"
  by (simp add: reach_watched_37 watched_37_values watched_37_progress loadProgress_def
      saveProgressToStorage_def initial_tracker_def Let_def)

text \<open>
  C6, as amended. Every metadata report sets the total duration: with a player present,
  \<^verbatim>\<open>handleLoadedMetadata\<close> stores the reported duration whatever the current value is, so a
  later report with a different positive duration replaces it.
\<close>

theorem handleLoadedMetadata_overwrites:
  "videoRef st = Some v \<Longrightarrow> totalDuration (handleLoadedMetadata st) = duration v"
  by (simp add: handleLoadedMetadata_def)

theorem handleLoadedMetadata_overwrites_witness:
  "videoRef ((initial_tracker (Some (playing_at 0 200)) None False)\<lparr>totalDuration := 100\<rparr>)
     = Some (playing_at 0 200) \<and>
   totalDuration (handleLoadedMetadata
     ((initial_tracker (Some (playing_at 0 200)) None False)\<lparr>totalDuration := 100\<rparr>)) = 200"
proof -
  let ?st = "(initial_tracker (Some (playing_at 0 200)) None False)\<lparr>totalDuration := 100\<rparr>"
  have v: "videoRef ?st = Some (playing_at 0 200)" by (simp add: initial_tracker_def)
  from handleLoadedMetadata_overwrites [OF v] v show ?thesis
    by (simp add: playing_at_def)
qed

text \<open>
  The claim as stated fails: a first report sets the total duration to 100, a second one
  with duration 200 is not ignored.
\<close>

theorem handleLoadedMetadata_set_once_counterexample:
  "totalDuration (handleLoadedMetadata (initial_tracker (Some (playing_at 0 100)) None False)) = 100 \<and>
   totalDuration (handleLoadedMetadata
     ((handleLoadedMetadata (initial_tracker (Some (playing_at 0 100)) None False))
        \<lparr>videoRef := Some (playing_at 0 200)\<rparr>)) = 200"
  by (simp add: handleLoadedMetadata_def initial_tracker_def playing_at_def)

text \<open>
  C7. Closing a segment shorter than 0.5 s changes neither the intervals nor the session
  time; closing one of at least 0.5 s merges it into the intervals and adds its length to
  the session time. The closed segment runs from the open start \<open>s\<close> to the player's
  current time. (The state updater is taken to run once per call.)
\<close>

theorem recordWatchedSegment_threshold:
  "currentWatchStart st = Some s \<Longrightarrow> videoRef st = Some v \<Longrightarrow>
     (currentTime v - s < 1 / 2 \<longrightarrow>
        watchedIntervals (recordWatchedSegment st) = watchedIntervals st \<and>
        sessionWatchedTime (recordWatchedSegment st) = sessionWatchedTime st) \<and>
     (currentTime v - s \<ge> 1 / 2 \<longrightarrow>
        watchedIntervals (recordWatchedSegment st)
          = mergeIntervals (watchedIntervals st @ [\<lparr>iv_start = s, iv_end = currentTime v\<rparr>]) \<and>
        sessionWatchedTime (recordWatchedSegment st) = sessionWatchedTime st + (currentTime v - s))"
  by (auto simp: recordWatchedSegment_def Let_def merge_updated_def)

theorem recordWatchedSegment_threshold_witness:
  "watchedIntervals (recordWatchedSegment
      ((initial_tracker (Some (playing_at (103 / 10) 600)) None False)\<lparr>currentWatchStart := Some 10\<rparr>))
     = [] \<and>
   sessionWatchedTime (recordWatchedSegment
      ((initial_tracker (Some (playing_at (103 / 10) 600)) None False)\<lparr>currentWatchStart := Some 10\<rparr>))
     = 0 \<and>
   watchedIntervals (recordWatchedSegment
      ((initial_tracker (Some (playing_at 8 600)) None False)
         \<lparr>currentWatchStart := Some 5, watchedIntervals := [\<lparr>iv_start = 0, iv_end = 10\<rparr>],
          sessionWatchedTime := 10\<rparr>))
     = [\<lparr>iv_start = 0, iv_end = 10\<rparr>] \<and>
   sessionWatchedTime (recordWatchedSegment
      ((initial_tracker (Some (playing_at 8 600)) None False)
         \<lparr>currentWatchStart := Some 5, watchedIntervals := [\<lparr>iv_start = 0, iv_end = 10\<rparr>],
          sessionWatchedTime := 10\<rparr>))
     = 13"
proof -
  let ?short = "(initial_tracker (Some (playing_at (103 / 10) 600)) None False)\<lparr>currentWatchStart := Some 10\<rparr>"
  let ?long = "(initial_tracker (Some (playing_at 8 600)) None False)
         \<lparr>currentWatchStart := Some 5, watchedIntervals := [\<lparr>iv_start = 0, iv_end = 10\<rparr>],
          sessionWatchedTime := 10\<rparr>"
  have s1: "currentWatchStart ?short = Some 10" and v1: "videoRef ?short = Some (playing_at (103 / 10) 600)"
    by (simp_all add: initial_tracker_def)
  have s2: "currentWatchStart ?long = Some 5" and v2: "videoRef ?long = Some (playing_at 8 600)"
    by (simp_all add: initial_tracker_def)
  have m: "mergeIntervals ([\<lparr>iv_start = 0, iv_end = 10\<rparr>] @ [\<lparr>iv_start = 5, iv_end = 8\<rparr>])
             = [\<lparr>iv_start = 0, iv_end = 10\<rparr>]"
    by (simp add: mergeIntervals_def merge_step_def)
  from recordWatchedSegment_threshold [OF s1 v1] recordWatchedSegment_threshold [OF s2 v2] m
  show ?thesis
    by (simp add: initial_tracker_def playing_at_def)
qed

text \<open>
  C8. In every state the component reaches (in a tab whose session storage was empty at
  first, with the player on the timeline of the medium), the progress is the unique
  covered time divided by the total duration, times 100, when the total duration is
  positive, and 0 otherwise; and it never exceeds 100. With a total duration of 100 and a
  coverage of 37 it is exactly 37.
\<close>

theorem progress_of_reached_state:
  "reach D st \<Longrightarrow>
     (0 < totalDuration st \<longrightarrow>
        currentProgress st = calculateUniqueTime (watchedIntervals st) / totalDuration st * 100) \<and>
     (\<not> 0 < totalDuration st \<longrightarrow> currentProgress st = 0) \<and>
     currentProgress st \<le> 100"
  using reach_settled [of D st] settled_le_100 [of D st] by (simp add: settled_def)

theorem progress_of_reached_state_witness:
  "reach 100 watched_37 \<and> 0 < totalDuration watched_37 \<and>
   currentProgress watched_37 = 37 \<and> currentProgress watched_37 \<le> 100 \<and>
   reach 100 (initial_tracker (Some (fresh_player 100)) None False) \<and>
   currentProgress (initial_tracker (Some (fresh_player 100)) None False) = 0"
proof -
  have r0: "reach 100 (initial_tracker (Some (fresh_player 100)) None False)"
    by (rule reach.mounted) simp
  have z: "\<not> 0 < totalDuration (initial_tracker (Some (fresh_player 100)) None False)"
    by (simp add: initial_tracker_def)
  from progress_of_reached_state [OF reach_watched_37]
  have a: "currentProgress watched_37
             = calculateUniqueTime (watchedIntervals watched_37) / totalDuration watched_37 * 100"
    and b: "currentProgress watched_37 \<le> 100"
    by (simp_all add: watched_37_values)
  from progress_of_reached_state [OF r0] z
  have c: "currentProgress (initial_tracker (Some (fresh_player 100)) None False) = 0"
    by blast
  from a have "currentProgress watched_37 = 37"
    by (simp add: watched_37_values calculateUniqueTime_def)
  with b c r0 reach_watched_37 show ?thesis by (simp add: watched_37_values)
qed

text \<open>
  C9, as amended. \<^verbatim>\<open>loadProgress\<close> installs the intervals array of the stored record as
  it is: nothing is sorted, merged or checked. So the state right after a load can violate
  the invariant of the coverage set; a record with overlapping intervals, one with
  unsorted intervals, one with an interval of length zero and one with an interval that
  ends before it starts all do. When every loaded interval ends after it starts, the
  invariant holds again after the next merge. An interval of length zero or one that ends
  before it starts is not removed by the merge, which never compares the end of an
  interval with its start: after the next merge the invariant can still be violated.
\<close>

theorem loadProgress_installs_unchecked:
  "(\<forall>st d xs. sessionStorage st = Some (Parsed d) \<and> pd_intervals d = Some xs \<longrightarrow>
       watchedIntervals (loadProgress st) = xs) \<and>
   \<not> coverage_set (watchedIntervals (loadProgress (initial_tracker None
        (Some (intervals_only [\<lparr>iv_start = 0, iv_end = 10\<rparr>, \<lparr>iv_start = 5, iv_end = 15\<rparr>])) False))) \<and>
   \<not> coverage_set (watchedIntervals (loadProgress (initial_tracker None
        (Some (intervals_only [\<lparr>iv_start = 20, iv_end = 30\<rparr>, \<lparr>iv_start = 0, iv_end = 10\<rparr>])) False))) \<and>
   \<not> coverage_set (watchedIntervals (loadProgress (initial_tracker None
        (Some (intervals_only [\<lparr>iv_start = 5, iv_end = 5\<rparr>])) False))) \<and>
   \<not> coverage_set (watchedIntervals (loadProgress (initial_tracker None
        (Some (intervals_only [\<lparr>iv_start = 8, iv_end = 3\<rparr>])) False))) \<and>
   (\<forall>st i. list_all proper (watchedIntervals (loadProgress st)) \<and> proper i \<longrightarrow>
       coverage_set (merge_updated (watchedIntervals (loadProgress st)) i)) \<and>
   \<not> coverage_set (merge_updated (watchedIntervals (loadProgress (initial_tracker None
        (Some (intervals_only [\<lparr>iv_start = 5, iv_end = 5\<rparr>])) False))) \<lparr>iv_start = 20, iv_end = 30\<rparr>) \<and>
   \<not> coverage_set (merge_updated (watchedIntervals (loadProgress (initial_tracker None
        (Some (intervals_only [\<lparr>iv_start = 8, iv_end = 3\<rparr>])) False))) \<lparr>iv_start = 20, iv_end = 30\<rparr>)"
proof -
  have load: "watchedIntervals (loadProgress (initial_tracker None (Some (intervals_only xs)) False)) = xs"
    for xs
    by (simp add: loadProgress_def initial_tracker_def intervals_only_def Let_def)
  have verbatim: "\<forall>st d xs. sessionStorage st = Some (Parsed d) \<and> pd_intervals d = Some xs \<longrightarrow>
       watchedIntervals (loadProgress st) = xs"
    by (auto simp: loadProgress_def Let_def split: option.splits)
  have m5: "merge_updated [\<lparr>iv_start = 5, iv_end = 5\<rparr>] \<lparr>iv_start = 20, iv_end = 30\<rparr>
              = [\<lparr>iv_start = 5, iv_end = 5\<rparr>, \<lparr>iv_start = 20, iv_end = 30\<rparr>]"
    by (simp add: merge_updated_def mergeIntervals_def merge_step_def Let_def)
  have m8: "merge_updated [\<lparr>iv_start = 8, iv_end = 3\<rparr>] \<lparr>iv_start = 20, iv_end = 30\<rparr>
              = [\<lparr>iv_start = 8, iv_end = 3\<rparr>, \<lparr>iv_start = 20, iv_end = 30\<rparr>]"
    by (simp add: merge_updated_def mergeIntervals_def merge_step_def Let_def)
  show ?thesis
    using verbatim coverage_set_merge_updated
    by (simp add: load m5 m8 coverage_set_def proper_def)
qed

theorem loadProgress_installs_unchecked_witness:
  "sessionStorage (initial_tracker None
       (Some (intervals_only [\<lparr>iv_start = 0, iv_end = 10\<rparr>, \<lparr>iv_start = 5, iv_end = 15\<rparr>])) False)
     = Some (intervals_only [\<lparr>iv_start = 0, iv_end = 10\<rparr>, \<lparr>iv_start = 5, iv_end = 15\<rparr>]) \<and>
   watchedIntervals (loadProgress (initial_tracker None
       (Some (intervals_only [\<lparr>iv_start = 0, iv_end = 10\<rparr>, \<lparr>iv_start = 5, iv_end = 15\<rparr>])) False))
     = [\<lparr>iv_start = 0, iv_end = 10\<rparr>, \<lparr>iv_start = 5, iv_end = 15\<rparr>] \<and>
   proper \<lparr>iv_start = 0, iv_end = 10\<rparr> \<and> proper \<lparr>iv_start = 5, iv_end = 15\<rparr> \<and>
   proper \<lparr>iv_start = 20, iv_end = 30\<rparr> \<and>
   coverage_set (merge_updated (watchedIntervals (loadProgress (initial_tracker None
       (Some (intervals_only [\<lparr>iv_start = 0, iv_end = 10\<rparr>, \<lparr>iv_start = 5, iv_end = 15\<rparr>])) False)))
       \<lparr>iv_start = 20, iv_end = 30\<rparr>)"
proof -
  let ?xs = "[\<lparr>iv_start = 0, iv_end = 10\<rparr>, \<lparr>iv_start = 5, iv_end = 15\<rparr>]"
  let ?d = "\<lparr>pd_intervals = Some ?xs, pd_lastPosition = None, pd_totalDuration = None,
             pd_sessionTime = None, pd_timestamp = None, pd_progressPercentage = None\<rparr>"
  let ?st = "initial_tracker None (Some (intervals_only ?xs)) False"
  have s: "sessionStorage ?st = Some (Parsed ?d)"
    by (simp add: initial_tracker_def intervals_only_def)
  have i: "pd_intervals ?d = Some ?xs" by simp
  from loadProgress_installs_unchecked s i
  have l: "watchedIntervals (loadProgress ?st) = ?xs" by blast
  have p: "list_all proper ?xs \<and> proper \<lparr>iv_start = 20, iv_end = 30\<rparr>"
    by (simp add: proper_def)
  with l have "list_all proper (watchedIntervals (loadProgress ?st)) \<and> proper \<lparr>iv_start = 20, iv_end = 30\<rparr>"
    by simp
  with loadProgress_installs_unchecked
  have "coverage_set (merge_updated (watchedIntervals (loadProgress ?st)) \<lparr>iv_start = 20, iv_end = 30\<rparr>)"
    by blast
  with l p s show ?thesis by (simp add: intervals_only_def)
qed

text \<open>
  The claim as stated fails where it says that the violation lasts until the next merge:
  with the loaded interval \<open>[8, 3]\<close>, closing the segment \<open>[20, 30]\<close> merges into
  \<open>[8, 3], [20, 30]\<close>, which still holds an interval that ends before it starts.
\<close>

theorem violation_outlasts_merge_counterexample:
  "watchedIntervals (loadProgress
      ((initial_tracker (Some (playing_at 30 600)) (Some (intervals_only [\<lparr>iv_start = 8, iv_end = 3\<rparr>])) False)
         \<lparr>currentWatchStart := Some 20\<rparr>))
     = [\<lparr>iv_start = 8, iv_end = 3\<rparr>] \<and>
   watchedIntervals (recordWatchedSegment (loadProgress
      ((initial_tracker (Some (playing_at 30 600)) (Some (intervals_only [\<lparr>iv_start = 8, iv_end = 3\<rparr>])) False)
         \<lparr>currentWatchStart := Some 20\<rparr>)))
     = [\<lparr>iv_start = 8, iv_end = 3\<rparr>, \<lparr>iv_start = 20, iv_end = 30\<rparr>] \<and>
   \<not> coverage_set [\<lparr>iv_start = 8, iv_end = 3\<rparr>, \<lparr>iv_start = 20, iv_end = 30\<rparr>]"
  by (simp add: loadProgress_def recordWatchedSegment_def initial_tracker_def intervals_only_def
      playing_at_def merge_updated_def mergeIntervals_def merge_step_def coverage_set_def
      proper_def Let_def)



end
